theory Spec2Isabelle
  imports Main "HOL-Library.Word"
begin

section \<open>Data model\<close>

text \<open>
  A byte is an 8-bit word. A symbol is what a leaf of the prefix tree stores and what keys
  the encoding table: \<open>Some b\<close> for the real byte \<open>b\<close>, and \<open>None\<close> (Python's
  \<open>None\<close>) for the end-of-stream marker.
\<close>

type_synonym byte = "8 word"

type_synonym symbol = "byte option"

datatype tree = TreeLeaf symbol | TreeBranch tree tree

text \<open>The Python exceptions that can leave a function of \<open>util.py\<close>.\<close>

datatype error = EOFError | KeyError | AttributeError | TypeError | PicklingError | UnpicklingError

subsection \<open>The \<open>huffman\<close> module\<close>

text \<open>
  Modelled from the spec: the module \<open>huffman\<close> (classes \<open>TreeLeaf\<close> and
  \<open>TreeBranch\<close>, function \<open>make_encoding_table\<close>) is imported by \<open>util.py\<close> but its
  source is not available. Section 3 of the specification gives the node variants: a leaf
  holds a value and has no children, an internal node holds exactly two children. Asking a
  node for an attribute its class does not have raises \<open>AttributeError\<close>.
\<close>

fun getLeft :: "tree \<Rightarrow> error + tree" where
  "getLeft (TreeBranch l r) = Inr l"
| "getLeft (TreeLeaf v) = Inl AttributeError"

fun getRight :: "tree \<Rightarrow> error + tree" where
  "getRight (TreeBranch l r) = Inr r"
| "getRight (TreeLeaf v) = Inl AttributeError"

fun getValue :: "tree \<Rightarrow> error + symbol" where
  "getValue (TreeLeaf v) = Inr v"
| "getValue (TreeBranch l r) = Inl AttributeError"

fun isTreeLeaf :: "tree \<Rightarrow> bool" where
  "isTreeLeaf (TreeLeaf v) = True"
| "isTreeLeaf (TreeBranch l r) = False"

text \<open>
  Modelled from the spec: \<open>make_encoding_table\<close> (section 4.3). The tree is traversed
  depth-first from the root with an accumulating bit path, initially empty; an internal node
  recurses left with path + \<open>False\<close> and right with path + \<open>True\<close>; a leaf records
  (value, path) in the table. The table is a Python dictionary: recording a key that is
  already present replaces its entry.
\<close>

type_synonym table = "symbol \<rightharpoonup> bool list"

fun recurse :: "tree \<Rightarrow> bool list \<Rightarrow> table \<Rightarrow> table" where
  "recurse (TreeLeaf v) path tbl = tbl(v \<mapsto> path)"
| "recurse (TreeBranch l r) path tbl =
     recurse r (path @ [True]) (recurse l (path @ [False]) tbl)"

definition make_encoding_table :: "tree \<Rightarrow> table" where
  "make_encoding_table huffman_tree = recurse huffman_tree [] Map.empty"

subsection \<open>The \<open>bitio\<close> module\<close>

text \<open>
  Modelled from the spec: the module \<open>bitio\<close> (classes \<open>BitReader\<close> and
  \<open>BitWriter\<close>) is imported by \<open>util.py\<close> but its source is not available. Section 6 of
  the specification gives the contract: \<open>readBit\<close> yields one bit or fails with end of
  input when the source is exhausted; \<open>readBits n\<close> yields the unsigned integer of the next
  \<open>n\<close> bits or fails with end of input when fewer than \<open>n\<close> bits remain; \<open>writeBit\<close>
  and \<open>writeBits value n\<close> append bits; \<open>flush\<close> pads the current partial byte with zero
  bits and forces the bytes to the underlying sink. Bits are packed contiguously, the first
  bit written being the most significant bit of its byte (the scenario of section 8 packs
  0,1,0,1,1 into 01011000).

  A reader is represented by the bits it has not yet delivered. A writer is represented by
  the contents of the underlying stream when the writer was attached and the bits written
  since; the stream is observed only after \<open>flush\<close>.
\<close>

definition nat_of_bits :: "bool list \<Rightarrow> nat" where
  "nat_of_bits bs = horner_sum of_bool 2 (rev bs)"

definition bits_of :: "nat \<Rightarrow> nat \<Rightarrow> bool list" where
  "bits_of n v = map (bit v) (rev [0..<n])"

type_synonym bitreader = "bool list"

definition BitReader :: "byte list \<Rightarrow> bitreader" where
  "BitReader input = concat (map (\<lambda>b. bits_of 8 (unat b)) input)"

fun readbit :: "bitreader \<Rightarrow> error + (bool \<times> bitreader)" where
  "readbit [] = Inl EOFError"
| "readbit (b # bs) = Inr (b, bs)"

definition readbits :: "nat \<Rightarrow> bitreader \<Rightarrow> error + (nat \<times> bitreader)" where
  "readbits n reader =
     (if length reader < n then Inl EOFError
      else Inr (nat_of_bits (take n reader), drop n reader))"

record bitwriter =
  stream :: "byte list"
  pending :: "bool list"

definition BitWriter :: "byte list \<Rightarrow> bitwriter" where
  "BitWriter output = \<lparr>stream = output, pending = []\<rparr>"

definition writebit :: "bool \<Rightarrow> bitwriter \<Rightarrow> bitwriter" where
  "writebit b writer = writer\<lparr>pending := pending writer @ [b]\<rparr>"

definition writebits :: "nat \<Rightarrow> nat \<Rightarrow> bitwriter \<Rightarrow> bitwriter" where
  "writebits v n writer = foldl (\<lambda>w b. writebit b w) writer (bits_of n v)"

function pack :: "bool list \<Rightarrow> byte list" where
  "pack bs =
     (if bs = [] then []
      else of_nat (nat_of_bits (take 8 (bs @ replicate 7 False))) # pack (drop 8 bs))"
  by pat_completeness auto
termination
  by (relation "measure length") auto

definition flush :: "bitwriter \<Rightarrow> bitwriter" where
  "flush writer = \<lparr>stream = stream writer @ pack (pending writer), pending = []\<rparr>"

subsection \<open>The \<open>pickle\<close> module\<close>

text \<open>
  Modelled from the spec: \<open>pickle\<close> is Python's object serialisation library; the
  specification (sections 1 and 6) treats the tree's serialisation as an opaque,
  self-delimiting blob such that reading reconstructs the tree exactly and leaves the read
  position at the first byte of the payload, and allows any self-delimiting scheme, for
  example a recursive node tag with payload. The model uses that scheme: tag 0 is the leaf
  of the end-of-stream marker, tag 1 followed by a byte is the leaf of that byte, tag 2 is
  an internal node followed by its left and its right subtree. Loading runs a stack machine
  over the input, as pickle does: a frame \<open>None\<close> is an internal node that waits for its
  left subtree, a frame \<open>Some l\<close> one that waits for its right subtree.
\<close>

fun pickle_dumps :: "tree \<Rightarrow> byte list" where
  "pickle_dumps (TreeLeaf None) = [0]"
| "pickle_dumps (TreeLeaf (Some b)) = [1, b]"
| "pickle_dumps (TreeBranch l r) = 2 # pickle_dumps l @ pickle_dumps r"

fun reduce :: "tree \<Rightarrow> tree option list \<Rightarrow> tree + tree option list" where
  "reduce t [] = Inl t"
| "reduce t (None # st) = Inr (Some t # st)"
| "reduce t (Some l # st) = reduce (TreeBranch l t) st"

fun pickle_run :: "tree option list \<Rightarrow> byte list \<Rightarrow> error + (tree \<times> byte list)" where
  "pickle_run st [] = Inl EOFError"
| "pickle_run st (tag # bs) =
     (if tag = 2 then pickle_run (None # st) bs
      else if tag = 0 then
        (case reduce (TreeLeaf None) st of
           Inl t \<Rightarrow> Inr (t, bs)
         | Inr st' \<Rightarrow> pickle_run st' bs)
      else if tag = 1 then
        (case bs of
           [] \<Rightarrow> Inl EOFError
         | v # bs' \<Rightarrow>
             (case reduce (TreeLeaf (Some v)) st of
                Inl t \<Rightarrow> Inr (t, bs')
              | Inr st' \<Rightarrow> pickle_run st' bs'))
      else Inl UnpicklingError)"

definition pickle_load :: "byte list \<Rightarrow> error + (tree \<times> byte list)" where
  "pickle_load input = pickle_run [] input"

section \<open>The codec of \<open>util.py\<close>\<close>

text \<open>
  A file stream is the list of its bytes. A function that reads a stream takes the bytes
  from the current position on; a function that writes one takes the contents so far and
  returns the new contents. A raised exception is \<open>Inl\<close>.
\<close>

definition read_tree :: "byte list \<Rightarrow> error + (tree \<times> byte list)" where
  "read_tree tree_stream = pickle_load tree_stream"

definition write_tree :: "tree \<Rightarrow> byte list \<Rightarrow> byte list" where
  "write_tree tree tree_stream = tree_stream @ pickle_dumps tree"

text \<open>
  \<open>decode_byte\<close>: the loop reads a bit, moves to the left child on 0 and to the right
  child on 1, and returns the value of the node it moved to when that node is a leaf. The
  handler of \<open>EOFError\<close> returns \<open>None\<close>; any other exception leaves the function. The
  loop is \<open>decode_loop\<close>, with the loop variable \<open>tree_part\<close> as its first argument; the
  assignment \<open>tree_part = tree\<close> before the \<open>return\<close> writes a local variable that is
  not read again.
\<close>

function decode_loop :: "tree \<Rightarrow> bitreader \<Rightarrow> (error + symbol) \<times> bitreader" where
  "decode_loop tree_part reader =
     (case readbit reader of
        Inl e \<Rightarrow> (if e = EOFError then (Inr None, reader) else (Inl e, reader))
      | Inr (b, reader') \<Rightarrow>
          (case (if \<not> b then getLeft tree_part else getRight tree_part) of
             Inl e \<Rightarrow> (Inl e, reader')
           | Inr tree_part' \<Rightarrow>
               (if isTreeLeaf tree_part' then
                  (case getValue tree_part' of
                     Inl e \<Rightarrow> (Inl e, reader')
                   | Inr leaf_value \<Rightarrow> (Inr leaf_value, reader'))
                else decode_loop tree_part' reader')))"
  by pat_completeness auto
termination
proof (relation "measure (\<lambda>(tree_part, reader). size tree_part)")
  show "wf (measure (\<lambda>(tree_part, reader). size tree_part))"
    by simp
next
  fix tree_part :: tree and reader :: bitreader and x b reader' tree_part'
  assume "(if \<not> b then getLeft tree_part else getRight tree_part) = Inr tree_part'"
  then show "((tree_part', reader'), (tree_part, reader))
      \<in> measure (\<lambda>(tree_part, reader). size tree_part)"
    by (cases tree_part) (auto split: if_splits)
qed

definition decode_byte :: "tree \<Rightarrow> bitreader \<Rightarrow> (error + symbol) \<times> bitreader" where
  "decode_byte tree reader = decode_loop tree reader"

text \<open>
  \<open>decompress\<close>: the tree is unpickled from the head of \<open>compressed\<close>, the bit reader
  continues where pickle stopped. The loop writes each decoded value as 8 bits and ends when
  \<open>decode_byte\<close> returns \<open>None\<close>. \<open>decompress_loop\<close> returns the writer together with
  the reader as the loop leaves them.
\<close>

function decompress_loop ::
  "tree \<Rightarrow> bitreader \<Rightarrow> bitwriter \<Rightarrow> error + (bitwriter \<times> bitreader)" where
  "decompress_loop tree reader writer =
     (case decode_byte tree reader of
        (Inl e, reader') \<Rightarrow> Inl e
      | (Inr None, reader') \<Rightarrow> Inr (writer, reader')
      | (Inr (Some byte), reader') \<Rightarrow>
          decompress_loop tree reader' (writebits (unat byte) 8 writer))"
  by pat_completeness auto
termination
proof (relation "measure (\<lambda>(tree, reader, writer). length reader)")
  show "wf (measure (\<lambda>(tree, reader, writer). length reader))"
    by simp
next
  fix tree :: tree and reader reader' :: bitreader and writer :: bitwriter
    and x r y byte
  assume call: "(x, reader') = decode_byte tree reader" "x = Inr y" "y = Some byte"
  have consumed: "decode_loop t rd = (Inr (Some v), rd') \<Longrightarrow> length rd' < length rd"
    for t rd v rd'
  proof (induction t rd rule: decode_loop.induct)
    case (1 tree_part rd)
    show ?case
    proof (cases rd)
      case Nil
      with "1.prems" show ?thesis
        by (simp add: decode_loop.simps [of tree_part "[]"])
    next
      case (Cons b bs)
      show ?thesis
      proof (cases "if \<not> b then getLeft tree_part else getRight tree_part")
        case (Inl e)
        with "1.prems" Cons show ?thesis
          by (simp add: decode_loop.simps [of tree_part "b # bs"])
      next
        case (Inr tp)
        show ?thesis
        proof (cases "isTreeLeaf tp")
          case True
          with "1.prems" Cons Inr have "rd' = bs"
            by (simp add: decode_loop.simps [of tree_part "b # bs"] split: sum.splits)
          with Cons show ?thesis by simp
        next
          case False
          with "1.prems" Cons Inr have "decode_loop tp bs = (Inr (Some v), rd')"
            by (simp add: decode_loop.simps [of tree_part "b # bs"])
          moreover have "readbit rd = Inr (b, bs)"
            using Cons by simp
          ultimately have "length rd' < length bs"
            using "1.IH" [of "(b, bs)" b bs tp] Inr False by simp
          with Cons show ?thesis by simp
        qed
      qed
    qed
  qed
  from call have "decode_loop tree reader = (Inr (Some byte), reader')"
    by (simp add: decode_byte_def)
  then have "length reader' < length reader"
    by (rule consumed)
  then show "((tree, reader', writebits (unat byte) 8 writer), (tree, reader, writer))
      \<in> measure (\<lambda>(tree, reader, writer). length reader)"
    by simp
qed

definition decompress :: "byte list \<Rightarrow> byte list \<Rightarrow> error + byte list" where
  "decompress compressed uncompressed =
     (case read_tree compressed of
        Inl e \<Rightarrow> Inl e
      | Inr (tree, rest) \<Rightarrow>
          (case decompress_loop tree (BitReader rest) (BitWriter uncompressed) of
             Inl e \<Rightarrow> Inl e
           | Inr (writer, reader) \<Rightarrow> Inr (stream (flush writer))))"

text \<open>
  \<open>compress\<close>: the tree is pickled to \<open>compressed\<close>, the table is built, and the loop
  reads 8 bits at a time and writes the looked-up path bit by bit. A missing key raises
  \<open>KeyError\<close>, which the \<open>except EOFError\<close> clause does not catch. On \<open>EOFError\<close> the
  handler writes the path stored under \<open>None\<close> and ends the loop.
\<close>

definition write_path :: "bool list \<Rightarrow> bitwriter \<Rightarrow> bitwriter" where
  "write_path path writer = foldl (\<lambda>w dir. writebit dir w) writer path"

function compress_loop :: "table \<Rightarrow> bitreader \<Rightarrow> bitwriter \<Rightarrow> error + bitwriter" where
  "compress_loop tbl reader writer =
     (case readbits 8 reader of
        Inl e \<Rightarrow>
          (if e = EOFError then
             (case tbl None of
                None \<Rightarrow> Inl KeyError
              | Some path \<Rightarrow> Inr (write_path path writer))
           else Inl e)
      | Inr (v, reader') \<Rightarrow>
          (case tbl (Some (of_nat v)) of
             None \<Rightarrow> Inl KeyError
           | Some path \<Rightarrow> compress_loop tbl reader' (write_path path writer)))"
  by pat_completeness auto
termination
  by (relation "measure (\<lambda>(tbl, reader, writer). length reader)")
     (auto simp: readbits_def split: if_splits)

definition compress :: "tree \<Rightarrow> byte list \<Rightarrow> byte list \<Rightarrow> error + byte list" where
  "compress tree uncompressed compressed =
     (let compressed' = write_tree tree compressed;
          tbl = make_encoding_table tree;
          writer = BitWriter compressed';
          reader = BitReader uncompressed
      in case compress_loop tbl reader writer of
           Inl e \<Rightarrow> Inl e
         | Inr writer' \<Rightarrow> Inr (stream (flush writer')))"

section \<open>The codec over an object store\<close>

text \<open>
  In Python the tree and the encoding table are objects that the functions of \<open>util.py\<close>
  reach through references, and a method call could change them. To state what the codec
  does to these objects, the store is made explicit: a heap is the list of the objects
  allocated so far, a reference is an index into it, and every operation takes the heap and
  returns the heap it leaves behind. A node of the tree is an object that holds a value or
  the references of its two children; the table is one dictionary object. A node is
  constructed from children that already exist, so the children of a node are older objects
  than the node. \<open>tree_at h p\<close> reads the tree that the heap holds at reference \<open>p\<close>;
  \<open>alloc\<close> constructs the objects of a tree, children first.
\<close>

type_synonym ref = nat

datatype obj = LeafObj symbol | BranchObj ref ref | DictObj table

type_synonym heap = "obj list"

definition deref :: "heap \<Rightarrow> ref \<Rightarrow> obj option" where
  "deref h p = (if p < length h then Some (h ! p) else None)"

function tree_at :: "heap \<Rightarrow> ref \<Rightarrow> tree option" where
  "tree_at h p =
     (case deref h p of
        Some (LeafObj v) \<Rightarrow> Some (TreeLeaf v)
      | Some (BranchObj l r) \<Rightarrow>
          (if l < p \<and> r < p then
             (case tree_at h l of
                None \<Rightarrow> None
              | Some lt \<Rightarrow>
                  (case tree_at h r of
                     None \<Rightarrow> None
                   | Some rt \<Rightarrow> Some (TreeBranch lt rt)))
           else None)
      | _ \<Rightarrow> None)"
  by pat_completeness auto
termination
  by (relation "measure (\<lambda>(h, p). p)") auto

fun alloc :: "tree \<Rightarrow> heap \<Rightarrow> ref \<times> heap" where
  "alloc (TreeLeaf v) h = (length h, h @ [LeafObj v])"
| "alloc (TreeBranch l r) h =
     (case alloc l h of
        (pl, h1) \<Rightarrow>
          (case alloc r h1 of
             (pr, h2) \<Rightarrow> (length h2, h2 @ [BranchObj pl pr])))"

text \<open>
  Modelled from the spec: the accessors of the \<open>huffman\<close> classes, \<open>isinstance\<close>,
  \<open>make_encoding_table\<close> and dictionary lookup, over the store. The accessors and the
  lookup read one object; \<open>make_encoding_table\<close> reads the tree and allocates one new
  object, the dictionary (sections 3 and 4.3: the table is derived by a traversal and built
  fresh).
\<close>

definition h_getLeft :: "ref \<Rightarrow> heap \<Rightarrow> (error + ref) \<times> heap" where
  "h_getLeft p h =
     (case deref h p of
        Some (BranchObj l r) \<Rightarrow> (Inr l, h)
      | _ \<Rightarrow> (Inl AttributeError, h))"

definition h_getRight :: "ref \<Rightarrow> heap \<Rightarrow> (error + ref) \<times> heap" where
  "h_getRight p h =
     (case deref h p of
        Some (BranchObj l r) \<Rightarrow> (Inr r, h)
      | _ \<Rightarrow> (Inl AttributeError, h))"

definition h_getValue :: "ref \<Rightarrow> heap \<Rightarrow> (error + symbol) \<times> heap" where
  "h_getValue p h =
     (case deref h p of
        Some (LeafObj v) \<Rightarrow> (Inr v, h)
      | _ \<Rightarrow> (Inl AttributeError, h))"

definition h_isTreeLeaf :: "ref \<Rightarrow> heap \<Rightarrow> bool \<times> heap" where
  "h_isTreeLeaf p h =
     (case deref h p of
        Some (LeafObj v) \<Rightarrow> (True, h)
      | _ \<Rightarrow> (False, h))"

definition h_make_encoding_table :: "ref \<Rightarrow> heap \<Rightarrow> (error + ref) \<times> heap" where
  "h_make_encoding_table huffman_tree h =
     (case tree_at h huffman_tree of
        None \<Rightarrow> (Inl TypeError, h)
      | Some t \<Rightarrow> (Inr (length h), h @ [DictObj (make_encoding_table t)]))"

definition h_getitem :: "ref \<Rightarrow> symbol \<Rightarrow> heap \<Rightarrow> (error + bool list) \<times> heap" where
  "h_getitem tbl key h =
     (case deref h tbl of
        Some (DictObj d) \<Rightarrow>
          (case d key of
             None \<Rightarrow> (Inl KeyError, h)
           | Some path \<Rightarrow> (Inr path, h))
      | _ \<Rightarrow> (Inl TypeError, h))"

text \<open>
  \<open>read_tree\<close> over the store allocates the unpickled tree; \<open>write_tree\<close> reads the tree
  through its reference and appends its serialisation to the stream.
\<close>

definition h_read_tree :: "byte list \<Rightarrow> heap \<Rightarrow> (error + (ref \<times> byte list)) \<times> heap" where
  "h_read_tree tree_stream h =
     (case pickle_load tree_stream of
        Inl e \<Rightarrow> (Inl e, h)
      | Inr (t, rest) \<Rightarrow> (case alloc t h of (p, h') \<Rightarrow> (Inr (p, rest), h')))"

definition h_write_tree :: "ref \<Rightarrow> byte list \<Rightarrow> heap \<Rightarrow> (error + byte list) \<times> heap" where
  "h_write_tree tree tree_stream h =
     (case tree_at h tree of
        None \<Rightarrow> (Inl PicklingError, h)
      | Some t \<Rightarrow> (Inr (tree_stream @ pickle_dumps t), h))"

text \<open>
  The functions of \<open>util.py\<close> once more, statement by statement as above, now with a
  reference where the tree or the table stands and with the heap threaded through every
  call.
\<close>

function h_decode_loop ::
  "ref \<Rightarrow> bitreader \<Rightarrow> heap \<Rightarrow> ((error + symbol) \<times> bitreader) \<times> heap" where
  "h_decode_loop tree_part reader h =
     (case readbit reader of
        Inl e \<Rightarrow> (if e = EOFError then ((Inr None, reader), h) else ((Inl e, reader), h))
      | Inr (b, reader') \<Rightarrow>
          (case (if \<not> b then h_getLeft tree_part h else h_getRight tree_part h) of
             (Inl e, h1) \<Rightarrow> ((Inl e, reader'), h1)
           | (Inr tree_part', h1) \<Rightarrow>
               (case h_isTreeLeaf tree_part' h1 of
                  (True, h2) \<Rightarrow>
                    (case h_getValue tree_part' h2 of
                       (Inl e, h3) \<Rightarrow> ((Inl e, reader'), h3)
                     | (Inr leaf_value, h3) \<Rightarrow> ((Inr leaf_value, reader'), h3))
                | (False, h2) \<Rightarrow> h_decode_loop tree_part' reader' h2)))"
  by pat_completeness auto
termination
proof (relation "measure (\<lambda>(tree_part, reader, h). length reader)")
  show "wf (measure (\<lambda>(tree_part, reader, h). length reader))"
    by simp
next
  fix tree_part :: ref and reader reader' :: bitreader and h h2 :: heap
    and x :: "bool \<times> bitreader" and b tree_part'
  assume "readbit reader = Inr x" "(b, reader') = x"
  then have "length reader' < length reader"
    by (cases reader) auto
  then show "((tree_part', reader', h2), (tree_part, reader, h))
      \<in> measure (\<lambda>(tree_part, reader, h). length reader)"
    by simp
qed

definition h_decode_byte ::
  "ref \<Rightarrow> bitreader \<Rightarrow> heap \<Rightarrow> ((error + symbol) \<times> bitreader) \<times> heap" where
  "h_decode_byte tree reader h = h_decode_loop tree reader h"


function h_decompress_loop ::
  "ref \<Rightarrow> bitreader \<Rightarrow> bitwriter \<Rightarrow> heap \<Rightarrow> (error + (bitwriter \<times> bitreader)) \<times> heap" where
  "h_decompress_loop tree reader writer h =
     (case h_decode_byte tree reader h of
        ((Inl e, reader'), h') \<Rightarrow> (Inl e, h')
      | ((Inr None, reader'), h') \<Rightarrow> (Inr (writer, reader'), h')
      | ((Inr (Some byte), reader'), h') \<Rightarrow>
          h_decompress_loop tree reader' (writebits (unat byte) 8 writer) h')"
  by pat_completeness auto
termination
proof (relation "measure (\<lambda>(tree, reader, writer, h). length reader)")
  show "wf (measure (\<lambda>(tree, reader, writer, h). length reader))"
    by simp
next
  fix tree :: ref and reader reader' :: bitreader and writer :: bitwriter and h h' :: heap
    and x y z byte
  assume call: "(x, h') = h_decode_byte tree reader h" "(y, reader') = x" "y = Inr z"
    "z = Some byte"
  have consumed: "h_decode_loop t rd g = ((res, rd'), g') \<Longrightarrow>
      length rd' \<le> length rd \<and> (res \<noteq> Inr None \<longrightarrow> length rd' < length rd)"
    for t rd g res rd' g'
  proof (induction t rd g rule: h_decode_loop.induct)
    case (1 tree_part rd g)
    show ?case
    proof (cases rd)
      case Nil
      with "1.prems" show ?thesis
        by (simp add: h_decode_loop.simps [of tree_part "[]"])
    next
      case (Cons b bs)
      obtain r1 g1 where step:
        "(if \<not> b then h_getLeft tree_part g else h_getRight tree_part g) = (r1, g1)"
        by (cases "if \<not> b then h_getLeft tree_part g else h_getRight tree_part g")
      show ?thesis
      proof (cases r1)
        case (Inl e)
        with "1.prems" Cons step have "rd' = bs"
          by (simp add: h_decode_loop.simps [of tree_part "b # bs"])
        with Cons show ?thesis by simp
      next
        case (Inr tp)
        obtain isl g2 where leaf: "h_isTreeLeaf tp g1 = (isl, g2)"
          by (cases "h_isTreeLeaf tp g1")
        show ?thesis
        proof (cases isl)
          case True
          with "1.prems" Cons step Inr leaf have "rd' = bs"
            by (simp add: h_decode_loop.simps [of tree_part "b # bs"]
                split: prod.splits sum.splits)
          with Cons show ?thesis by simp
        next
          case False
          with "1.prems" Cons step Inr leaf
          have rec: "h_decode_loop tp bs g2 = ((res, rd'), g')"
            by (simp add: h_decode_loop.simps [of tree_part "b # bs"])
          have "readbit rd = Inr (b, bs)"
            using Cons by simp
          moreover have "isl = False"
            using False by simp
          ultimately have "length rd' \<le> length bs
              \<and> (res \<noteq> Inr None \<longrightarrow> length rd' < length bs)"
            using "1.IH" [of "(b, bs)" b bs r1 g1 tp isl g2] step Inr leaf rec by simp
          then
          have "length rd' \<le> length bs" by simp
          with Cons show ?thesis by simp
        qed
      qed
    qed
  qed
  from call have "h_decode_loop tree reader h = ((Inr (Some byte), reader'), h')"
    by (simp add: h_decode_byte_def)
  from consumed [OF this] have "length reader' < length reader"
    by simp
  then show "((tree, reader', writebits (unat byte) 8 writer, h'), (tree, reader, writer, h))
      \<in> measure (\<lambda>(tree, reader, writer, h). length reader)"
    by simp
qed

definition h_decompress :: "byte list \<Rightarrow> byte list \<Rightarrow> heap \<Rightarrow> (error + byte list) \<times> heap" where
  "h_decompress compressed uncompressed h =
     (case h_read_tree compressed h of
        (Inl e, h1) \<Rightarrow> (Inl e, h1)
      | (Inr (tree, rest), h1) \<Rightarrow>
          (case h_decompress_loop tree (BitReader rest) (BitWriter uncompressed) h1 of
             (Inl e, h2) \<Rightarrow> (Inl e, h2)
           | (Inr (writer, reader), h2) \<Rightarrow> (Inr (stream (flush writer)), h2)))"

function h_compress_loop ::
  "ref \<Rightarrow> bitreader \<Rightarrow> bitwriter \<Rightarrow> heap \<Rightarrow> (error + bitwriter) \<times> heap" where
  "h_compress_loop tbl reader writer h =
     (case readbits 8 reader of
        Inl e \<Rightarrow>
          (if e = EOFError then
             (case h_getitem tbl None h of
                (Inl e', h') \<Rightarrow> (Inl e', h')
              | (Inr path, h') \<Rightarrow> (Inr (write_path path writer), h'))
           else (Inl e, h))
      | Inr (v, reader') \<Rightarrow>
          (case h_getitem tbl (Some (of_nat v)) h of
             (Inl e', h') \<Rightarrow> (Inl e', h')
           | (Inr path, h') \<Rightarrow> h_compress_loop tbl reader' (write_path path writer) h'))"
  by pat_completeness auto
termination
  by (relation "measure (\<lambda>(tbl, reader, writer, h). length reader)")
     (auto simp: readbits_def split: if_splits)

definition h_compress ::
  "ref \<Rightarrow> byte list \<Rightarrow> byte list \<Rightarrow> heap \<Rightarrow> (error + byte list) \<times> heap" where
  "h_compress tree uncompressed compressed h =
     (case h_write_tree tree compressed h of
        (Inl e, h1) \<Rightarrow> (Inl e, h1)
      | (Inr compressed', h1) \<Rightarrow>
          (case h_make_encoding_table tree h1 of
             (Inl e, h2) \<Rightarrow> (Inl e, h2)
           | (Inr tbl, h2) \<Rightarrow>
               (case h_compress_loop tbl (BitReader uncompressed) (BitWriter compressed') h2 of
                  (Inl e, h3) \<Rightarrow> (Inl e, h3)
                | (Inr writer', h3) \<Rightarrow> (Inr (stream (flush writer')), h3))))"

section \<open>Vocabulary for the properties\<close>

text \<open>
  \<open>leaves t\<close> are the symbols stored in the leaves of \<open>t\<close>. \<open>leads_to t path v\<close>
  holds when following \<open>path\<close> from \<open>t\<close> (left on \<open>False\<close>, right on \<open>True\<close>) ends
  exactly on a leaf that stores \<open>v\<close>. \<open>dangling t path\<close> holds when \<open>t\<close> is an internal
  node and following \<open>path\<close> from it ends on an internal node, so that no leaf has been
  reached when the path is used up. \<open>height\<close> is the length of the longest path.
  \<open>decodes tree reader bs\<close> calls \<open>decode_byte\<close> once for every element of \<open>bs\<close> and
  yields the reader left behind when every call returned the corresponding byte.
\<close>

fun leaves :: "tree \<Rightarrow> symbol set" where
  "leaves (TreeLeaf v) = {v}"
| "leaves (TreeBranch l r) = leaves l \<union> leaves r"

fun leads_to :: "tree \<Rightarrow> bool list \<Rightarrow> symbol \<Rightarrow> bool" where
  "leads_to (TreeLeaf u) path v = (path = [] \<and> u = v)"
| "leads_to (TreeBranch l r) [] v = False"
| "leads_to (TreeBranch l r) (b # path) v = leads_to (if b then r else l) path v"

fun dangling :: "tree \<Rightarrow> bool list \<Rightarrow> bool" where
  "dangling (TreeLeaf u) path = False"
| "dangling (TreeBranch l r) [] = True"
| "dangling (TreeBranch l r) (b # path) = dangling (if b then r else l) path"

fun height :: "tree \<Rightarrow> nat" where
  "height (TreeLeaf v) = 0"
| "height (TreeBranch l r) = Suc (max (height l) (height r))"

fun decodes :: "tree \<Rightarrow> bitreader \<Rightarrow> byte list \<Rightarrow> bitreader option" where
  "decodes tree reader [] = Some reader"
| "decodes tree reader (b # bs) =
     (case decode_byte tree reader of
        (Inr (Some b'), reader') \<Rightarrow> if b' = b then decodes tree reader' bs else None
      | _ \<Rightarrow> None)"

text \<open>
  The traversal as section 4.1 of the specification words it, for comparison with
  \<open>decode_byte\<close>: start at the tree; read one bit; when the source is exhausted return
  "no value"; otherwise move to the left child on \<open>False\<close> and to the right child on
  \<open>True\<close>; when the new node is a leaf return its value. The edge case of the same section
  is the first equation: for a tree that is a single leaf, zero bits are read and the value
  of the leaf is returned. \<open>signal\<close> is the way \<open>decode_byte\<close> reports an outcome to its
  caller.
\<close>

datatype outcome = NoValue | Value symbol

fun spec_decodeByte :: "tree \<Rightarrow> bool list \<Rightarrow> outcome \<times> bool list" where
  "spec_decodeByte (TreeLeaf v) bits = (Value v, bits)"
| "spec_decodeByte (TreeBranch l r) [] = (NoValue, [])"
| "spec_decodeByte (TreeBranch l r) (b # bits) =
     (case (if b then r else l) of
        TreeLeaf v \<Rightarrow> (Value v, bits)
      | TreeBranch l' r' \<Rightarrow> spec_decodeByte (TreeBranch l' r') bits)"

fun signal :: "outcome \<Rightarrow> symbol" where
  "signal NoValue = None"
| "signal (Value v) = v"

text \<open>
  Two concrete trees. \<open>scenario_tree\<close> is the tree of the scenario in section 8 of the
  specification: byte 97 on path 0, byte 98 on path 10, the end-of-stream marker on path 11.
  \<open>unary_tree\<close> has byte 97 on path 0 and the end-of-stream marker on path 1.
\<close>

definition scenario_tree :: tree where
  "scenario_tree =
     TreeBranch (TreeLeaf (Some 97)) (TreeBranch (TreeLeaf (Some 98)) (TreeLeaf None))"

definition unary_tree :: tree where
  "unary_tree = TreeBranch (TreeLeaf (Some 97)) (TreeLeaf None)"

section \<open>Auxiliary facts\<close>

declare decode_loop.simps [simp del] decompress_loop.simps [simp del]
  compress_loop.simps [simp del] pack.simps [simp del]

subsection \<open>Bits and bytes\<close>

lemma length_bits_of [simp]: "length (bits_of n v) = n"
  by (simp add: bits_of_def)

lemma nat_of_bits_bits_of: "nat_of_bits (bits_of n v) = take_bit n v"
  by (simp add: nat_of_bits_def bits_of_def rev_map horner_sum_bit_eq_take_bit)

lemma nat_of_bits_less: "nat_of_bits bs < 2 ^ length bs"
  using horner_sum_bound [of "rev bs"] by (simp add: nat_of_bits_def)

lemma bits_of_nat_of_bits: "length bs = n \<Longrightarrow> bits_of n (nat_of_bits bs) = bs"
  by (rule nth_equalityI)
     (auto simp: bits_of_def nat_of_bits_def bit_horner_sum_bit_iff rev_nth)

lemma byte_of_bits_of [simp]: "of_nat (nat_of_bits (bits_of 8 (unat b))) = (b :: byte)"
proof -
  have "unat b < 2 ^ 8"
    using unsigned_less [of b, where 'a = nat] by simp
  then have "take_bit 8 (unat b) = unat b"
    by (rule take_bit_nat_eq_self)
  then show ?thesis
    by (simp add: nat_of_bits_bits_of)
qed

lemma bits_of_byte_of:
  assumes "length bs = 8"
  shows "bits_of 8 (unat (of_nat (nat_of_bits bs) :: byte)) = bs"
proof -
  have "nat_of_bits bs < 2 ^ 8"
    using nat_of_bits_less [of bs] assms by simp
  then have "unat (of_nat (nat_of_bits bs) :: byte) = nat_of_bits bs"
    by (simp add: unat_of_nat)
  with assms show ?thesis
    by (simp add: bits_of_nat_of_bits)
qed

lemma pack_Nil [simp]: "pack [] = []"
  by (simp add: pack.simps)

lemma pack_chunk:
  "length c = 8 \<Longrightarrow> pack (c @ rest) = of_nat (nat_of_bits c) # pack rest"
  by (subst pack.simps) auto

lemma pack_BitReader [simp]: "pack (BitReader S @ bs) = S @ pack bs"
  by (induction S) (simp_all add: BitReader_def pack_chunk)

lemma pack_short:
  "bs \<noteq> [] \<Longrightarrow> length bs \<le> 8 \<Longrightarrow>
   pack bs = [of_nat (nat_of_bits (bs @ replicate (8 - length bs) False))]"
  by (subst pack.simps) (cases bs; simp add: min_def)

lemma BitReader_pack:
  "BitReader (pack bs) = bs @ replicate ((8 - length bs mod 8) mod 8) False"
proof (induction bs rule: pack.induct)
  case (1 bs)
  show ?case
  proof (cases "bs = []")
    case True
    then show ?thesis by (simp add: BitReader_def)
  next
    case False
    show ?thesis
    proof (cases "length bs \<le> 8")
      case True
      with False have "BitReader (pack bs) = bs @ replicate (8 - length bs) False"
        by (simp add: pack_short BitReader_def bits_of_byte_of)
      moreover have "(8 - length bs mod 8) mod 8 = 8 - length bs"
        using True False by (cases "length bs = 8") auto
      ultimately show ?thesis by simp
    next
      case long: False
      then have split: "bs = take 8 bs @ drop 8 bs" and len: "length (take 8 bs) = 8"
        by simp_all
      have "pack bs = of_nat (nat_of_bits (take 8 bs)) # pack (drop 8 bs)"
        using pack_chunk [OF len, of "drop 8 bs"] by simp
      then have "BitReader (pack bs) = take 8 bs @ BitReader (pack (drop 8 bs))"
        using len by (simp add: BitReader_def bits_of_byte_of)
      also have "\<dots> = take 8 bs @ drop 8 bs
          @ replicate ((8 - length (drop 8 bs) mod 8) mod 8) False"
        using "1.IH" False by simp
      also have "length (drop 8 bs) mod 8 = length bs mod 8"
        using long by (simp add: le_mod_geq)
      finally show ?thesis by simp
    qed
  qed
qed

lemma length_BitReader [simp]: "length (BitReader S) = 8 * length S"
  by (induction S) (simp_all add: BitReader_def)

lemma roundup_step: "0 < n \<Longrightarrow> Suc ((n - 8 + 7) div 8) = (n + 7) div (8::nat)"
proof (cases "n < 8")
  case True
  assume "0 < n"
  with True have "(n + 7) div 8 = 1"
    by (intro div_nat_eqI) simp_all
  with True show ?thesis by simp
next
  case False
  then obtain m where "n = m + 8"
    by (metis add.commute le_Suc_ex not_less)
  then show ?thesis by simp
qed

lemma length_pack: "length (pack bs) = (length bs + 7) div 8"
proof (induction bs rule: pack.induct)
  case (1 bs)
  show ?case
  proof (cases "bs = []")
    case True
    then show ?thesis by simp
  next
    case False
    have "length (pack bs) = Suc (length (pack (drop 8 bs)))"
      using False by (subst pack.simps) simp
    also have "\<dots> = Suc ((length bs - 8 + 7) div 8)"
      using "1.IH" [OF False] by simp
    also have "\<dots> = (length bs + 7) div 8"
      using False by (intro roundup_step) simp
    finally show ?thesis .
  qed
qed

subsection \<open>Pickling, the encoding table and the tree walk\<close>

lemma pickle_run_dumps:
  "pickle_run st (pickle_dumps t @ rest) =
     (case reduce t st of Inl t' \<Rightarrow> Inr (t', rest) | Inr st' \<Rightarrow> pickle_run st' rest)"
proof (induction t arbitrary: st rest)
  case (TreeLeaf v)
  then show ?case by (cases v) simp_all
next
  case (TreeBranch l r)
  then show ?case by simp
qed

lemma read_tree_dumps [simp]: "read_tree (pickle_dumps t @ rest) = Inr (t, rest)"
  by (simp add: read_tree_def pickle_load_def pickle_run_dumps)

lemma recurse_other: "v \<notin> leaves t \<Longrightarrow> recurse t path tbl v = tbl v"
  by (induction t arbitrary: path tbl) auto

lemma recurse_entry:
  "v \<in> leaves t \<Longrightarrow> \<exists>q. recurse t path tbl v = Some (path @ q) \<and> leads_to t q v"
proof (induction t arbitrary: path tbl)
  case (TreeLeaf u)
  then show ?case by simp
next
  case (TreeBranch l r)
  show ?case
  proof (cases "v \<in> leaves r")
    case True
    from TreeBranch.IH(2) [OF True, of "path @ [True]" "recurse l (path @ [False]) tbl"]
    obtain q where "recurse r (path @ [True]) (recurse l (path @ [False]) tbl) v
        = Some ((path @ [True]) @ q)" and "leads_to r q v"
      by blast
    then have "recurse (TreeBranch l r) path tbl v = Some (path @ True # q)
        \<and> leads_to (TreeBranch l r) (True # q) v"
      by simp
    then show ?thesis by blast
  next
    case False
    with TreeBranch.prems have inl: "v \<in> leaves l" by simp
    from TreeBranch.IH(1) [OF inl, of "path @ [False]" tbl]
    obtain q where "recurse l (path @ [False]) tbl v = Some ((path @ [False]) @ q)"
      and "leads_to l q v"
      by blast
    with False have "recurse (TreeBranch l r) path tbl v = Some (path @ False # q)
        \<and> leads_to (TreeBranch l r) (False # q) v"
      by (simp add: recurse_other)
    then show ?thesis by blast
  qed
qed

lemma table_entry:
  "v \<in> leaves t \<Longrightarrow> \<exists>q. make_encoding_table t v = Some q \<and> leads_to t q v"
  using recurse_entry [of v t "[]" Map.empty] by (simp add: make_encoding_table_def)

lemma table_missing: "v \<notin> leaves t \<Longrightarrow> make_encoding_table t v = None"
  by (simp add: make_encoding_table_def recurse_other)

lemma dom_table: "dom (make_encoding_table t) = leaves t"
proof -
  have "make_encoding_table t v \<noteq> None \<longleftrightarrow> v \<in> leaves t" for v
    using table_entry [of v t] table_missing [of v t] by (cases "v \<in> leaves t") auto
  then show ?thesis by (auto simp: dom_def)
qed

lemma decode_loop_Nil [simp]: "decode_loop t [] = (Inr None, [])"
  by (simp add: decode_loop.simps)

lemma decode_loop_leaf [simp]: "decode_loop (TreeLeaf v) (b # bs) = (Inl AttributeError, bs)"
  by (simp add: decode_loop.simps)

lemma decode_loop_branch:
  "decode_loop (TreeBranch l r) (b # bs) =
     (case (if b then r else l) of
        TreeLeaf v \<Rightarrow> (Inr v, bs)
      | TreeBranch l' r' \<Rightarrow> decode_loop (TreeBranch l' r') bs)"
  by (subst decode_loop.simps) (simp split: tree.splits)

lemma decode_loop_leads:
  "leads_to t p v \<Longrightarrow> p \<noteq> [] \<Longrightarrow> decode_loop t (p @ rest) = (Inr v, rest)"
proof (induction t p v rule: leads_to.induct)
  case (3 l r b path v)
  show ?case
  proof (cases "if b then r else l")
    case (TreeLeaf u)
    with "3.prems" show ?thesis by (simp add: decode_loop_branch)
  next
    case (TreeBranch l' r')
    with "3.prems" have "path \<noteq> []" by (cases path) auto
    with "3.IH" "3.prems" TreeBranch show ?thesis by (simp add: decode_loop_branch)
  qed
qed simp_all

lemma decode_loop_dangling: "dangling t p \<Longrightarrow> decode_loop t p = (Inr None, [])"
proof (induction t p rule: dangling.induct)
  case (3 l r b path)
  then show ?case
    by (cases "if b then r else l") (simp_all add: decode_loop_branch)
qed simp_all

lemma dangling_branch: "dangling t p \<Longrightarrow> \<not> isTreeLeaf t"
  by (cases t) auto

lemma leads_to_nonempty: "leads_to t p v \<Longrightarrow> \<not> isTreeLeaf t \<Longrightarrow> p \<noteq> []"
  by (cases t) auto

lemma leads_to_height: "leads_to t p v \<Longrightarrow> length p \<le> height t"
  by (induction t p v rule: leads_to.induct) (auto split: if_splits)

lemma dangling_height: "dangling t p \<Longrightarrow> length p < height t"
  by (induction t p rule: dangling.induct) (auto split: if_splits)

lemma walk_cases:
  "isTreeLeaf t \<or> (\<exists>p rest v. reader = p @ rest \<and> leads_to t p v) \<or> dangling t reader"
proof (induction reader arbitrary: t)
  case Nil
  then show ?case by (cases t) auto
next
  case (Cons b bs)
  show ?case
  proof (cases t)
    case (TreeLeaf v)
    then show ?thesis by simp
  next
    case (TreeBranch l r)
    define c where "c = (if b then r else l)"
    from Cons [of c] consider (leaf) "isTreeLeaf c"
      | (leads) p rest v where "bs = p @ rest" "leads_to c p v"
      | (dang) "dangling c bs"
      by blast
    then show ?thesis
    proof cases
      case leaf
      then obtain v where "c = TreeLeaf v" by (cases c) auto
      then have "b # bs = [b] @ bs \<and> leads_to t [b] v"
        using TreeBranch by (simp add: c_def)
      then show ?thesis by blast
    next
      case leads
      then have "b # bs = (b # p) @ rest \<and> leads_to t (b # p) v"
        using TreeBranch by (simp add: c_def)
      then show ?thesis by blast
    next
      case dang
      then show ?thesis using TreeBranch by (simp add: c_def)
    qed
  qed
qed

subsection \<open>The loops\<close>

lemma write_path_eq: "write_path path w = w\<lparr>pending := pending w @ path\<rparr>"
proof (induction path arbitrary: w)
  case Nil
  then show ?case by (simp add: write_path_def)
next
  case (Cons d path)
  from Cons [of "writebit d w"] show ?case
    by (simp add: write_path_def writebit_def)
qed

lemma writebits_eq: "writebits v n w = w\<lparr>pending := pending w @ bits_of n v\<rparr>"
  using write_path_eq [of "bits_of n v" w] by (simp add: writebits_def write_path_def)

lemma readbits_Nil [simp]: "readbits 8 [] = Inl EOFError"
  by (simp add: readbits_def)

lemma readbits_BitReader [simp]:
  "readbits 8 (BitReader (b # S)) = Inr (unat b, BitReader S)"
proof -
  have "nat_of_bits (bits_of 8 (unat b)) = unat b"
    using unsigned_less [of b, where 'a = nat]
    by (simp add: nat_of_bits_bits_of take_bit_nat_eq_self)
  then show ?thesis
    by (simp add: readbits_def BitReader_def)
qed

lemma BitReader_Nil [simp]: "BitReader [] = []"
  by (simp add: BitReader_def)

lemma BitReader_Cons: "BitReader (b # S) = bits_of 8 (unat b) @ BitReader S"
  by (simp add: BitReader_def)

lemma compress_loop_ok:
  assumes "list_all2 (\<lambda>p b. tbl (Some b) = Some p) ps S" and "tbl None = Some pe"
  shows "compress_loop tbl (BitReader S) w = Inr (w\<lparr>pending := pending w @ concat ps @ pe\<rparr>)"
  using assms(1)
proof (induction ps S arbitrary: w rule: list_all2_induct)
  case Nil
  with assms(2) show ?case
    by (subst compress_loop.simps) (simp add: write_path_eq)
next
  case (Cons p ps b S)
  from Cons.IH [of "write_path p w"] Cons.hyps(1) show ?case
    by (subst compress_loop.simps) (simp add: write_path_eq)
qed

lemma compress_loop_KeyError:
  "b \<in> set S \<Longrightarrow> tbl (Some b) = None \<Longrightarrow> compress_loop tbl (BitReader S) w = Inl KeyError"
proof (induction S arbitrary: w)
  case Nil
  then show ?case by simp
next
  case (Cons a S)
  show ?case
  proof (cases "tbl (Some a)")
    case None
    then show ?thesis by (subst compress_loop.simps) simp
  next
    case (Some p)
    with Cons.prems have "b \<in> set S" by auto
    from Cons.IH [OF this Cons.prems(2), of "write_path p w"] Some show ?thesis
      by (subst compress_loop.simps) simp
  qed
qed

lemma decompress_loop_stop:
  "decode_byte t r = (Inr None, r') \<Longrightarrow> decompress_loop t r w = Inr (w, r')"
  by (subst decompress_loop.simps) simp

lemma decompress_loop_step:
  "decode_byte t r = (Inr (Some b), r') \<Longrightarrow>
   decompress_loop t r w = decompress_loop t r' (writebits (unat b) 8 w)"
  by (subst decompress_loop.simps) simp

lemma decompress_loop_error:
  "decode_byte t r = (Inl e, r') \<Longrightarrow> decompress_loop t r w = Inl e"
  by (subst decompress_loop.simps) simp

lemma decompress_loop_decodes:
  "decodes t r bs = Some rm \<Longrightarrow>
   decompress_loop t r w = decompress_loop t rm (w\<lparr>pending := pending w @ BitReader bs\<rparr>)"
proof (induction bs arbitrary: r w)
  case Nil
  then show ?case by simp
next
  case (Cons b bs)
  from Cons.prems obtain r1 where step: "decode_byte t r = (Inr (Some b), r1)"
    and rest: "decodes t r1 bs = Some rm"
    by (auto split: prod.splits sum.splits option.splits if_splits)
  from Cons.IH [OF rest, of "writebits (unat b) 8 w"] step show ?case
    by (simp add: decompress_loop_step writebits_eq BitReader_Cons)
qed

lemma decodes_paths:
  assumes "list_all2 (\<lambda>p b. leads_to t p (Some b) \<and> p \<noteq> []) ps S"
  shows "decodes t (concat ps @ rest) S = Some rest"
  using assms
proof (induction ps S rule: list_all2_induct)
  case Nil
  then show ?case by simp
next
  case (Cons p ps b S)
  then have "decode_loop t (p @ concat ps @ rest) = (Inr (Some b), concat ps @ rest)"
    by (intro decode_loop_leads) simp_all
  with Cons.IH show ?case
    by (simp add: decode_byte_def)
qed

lemma paths_exist:
  "\<forall>b\<in>set S. Some b \<in> leaves T \<Longrightarrow>
   \<exists>ps. list_all2 (\<lambda>p b. make_encoding_table T (Some b) = Some p \<and> leads_to T p (Some b)) ps S"
proof (induction S)
  case Nil
  then show ?case by simp
next
  case (Cons b S)
  then obtain ps where
    "list_all2 (\<lambda>p b. make_encoding_table T (Some b) = Some p \<and> leads_to T p (Some b)) ps S"
    by auto
  moreover from Cons.prems obtain p where
    "make_encoding_table T (Some b) = Some p \<and> leads_to T p (Some b)"
    using table_entry [of "Some b" T] by auto
  ultimately have
    "list_all2 (\<lambda>p b. make_encoding_table T (Some b) = Some p \<and> leads_to T p (Some b))
       (p # ps) (b # S)"
    by simp
  then show ?case by blast
qed

lemma compress_result:
  assumes "list_all2 (\<lambda>p b. make_encoding_table T (Some b) = Some p \<and> leads_to T p (Some b)) ps S"
    and "make_encoding_table T None = Some pe"
  shows "compress T S sink = Inr (sink @ pickle_dumps T @ pack (concat ps @ pe))"
proof -
  from assms(1) have "list_all2 (\<lambda>p b. make_encoding_table T (Some b) = Some p) ps S"
    by (rule list_all2_mono) simp
  from compress_loop_ok [OF this assms(2), of "BitWriter (write_tree T sink)"]
  show ?thesis
    by (simp add: compress_def flush_def BitWriter_def write_tree_def)
qed

lemma decompress_result:
  assumes "decodes T (BitReader payload) bs = Some rm" and "decode_byte T rm = (Inr None, rest)"
  shows "decompress (pickle_dumps T @ payload) u = Inr (u @ bs)"
proof -
  have "decompress_loop T (BitReader payload) (BitWriter u)
      = Inr ((BitWriter u)\<lparr>pending := pending (BitWriter u) @ BitReader bs\<rparr>, rest)"
    using decompress_loop_decodes [OF assms(1)] decompress_loop_stop [OF assms(2)] by simp
  then show ?thesis
    using pack_BitReader [of bs "[]"] by (simp add: decompress_def flush_def BitWriter_def)
qed

lemma table_sound: "make_encoding_table t v = Some p \<Longrightarrow> leads_to t p v"
  using table_entry [of v t] table_missing [of v t] by (cases "v \<in> leaves t") auto

lemma decompress_loop_Inr:
  "decompress_loop t r w = Inr (w', r') \<Longrightarrow>
   \<exists>bs rm. decodes t r bs = Some rm \<and> decode_byte t rm = (Inr None, r')
     \<and> w' = w\<lparr>pending := pending w @ BitReader bs\<rparr>"
proof (induction t r w rule: decompress_loop.induct)
  case (1 t r w)
  obtain res r1 where d: "decode_byte t r = (res, r1)" by (cases "decode_byte t r")
  show ?case
  proof (cases res)
    case (Inl e)
    with d "1.prems" show ?thesis by (simp add: decompress_loop_error)
  next
    case (Inr y)
    show ?thesis
    proof (cases y)
      case None
      with d Inr "1.prems" have "decodes t r [] = Some r \<and> decode_byte t r = (Inr None, r')
          \<and> w' = w\<lparr>pending := pending w @ BitReader []\<rparr>"
        by (simp add: decompress_loop_stop)
      then show ?thesis by blast
    next
      case (Some b)
      with d Inr "1.prems"
      have "decompress_loop t r1 (writebits (unat b) 8 w) = Inr (w', r')"
        by (simp add: decompress_loop_step)
      from "1.IH" [OF d [symmetric] Inr Some this]
      obtain bs rm where "decodes t r1 bs = Some rm" "decode_byte t rm = (Inr None, r')"
        "w' = (writebits (unat b) 8 w)\<lparr>pending := pending (writebits (unat b) 8 w) @ BitReader bs\<rparr>"
        by blast
      with d Inr Some have "decodes t r (b # bs) = Some rm \<and> decode_byte t rm = (Inr None, r')
          \<and> w' = w\<lparr>pending := pending w @ BitReader (b # bs)\<rparr>"
        by (simp add: writebits_eq BitReader_Cons)
      then show ?thesis by blast
    qed
  qed
qed

subsection \<open>The object store\<close>

declare tree_at.simps [simp del] h_decode_loop.simps [simp del]
  h_decompress_loop.simps [simp del] h_compress_loop.simps [simp del]

lemma deref_append: "deref h p = Some x \<Longrightarrow> deref (h @ ext) p = Some x"
  by (auto simp: deref_def nth_append split: if_splits)

lemma deref_new [simp]: "deref (h @ [x]) (length h) = Some x"
  by (simp add: deref_def)

lemma tree_at_leaf: "tree_at h p = Some (TreeLeaf v) \<Longrightarrow> deref h p = Some (LeafObj v)"
  by (subst (asm) tree_at.simps) (auto split: option.splits obj.splits if_splits)

lemma tree_at_branch:
  "tree_at h p = Some (TreeBranch l r) \<Longrightarrow>
   \<exists>pl pr. deref h p = Some (BranchObj pl pr) \<and> pl < p \<and> pr < p
     \<and> tree_at h pl = Some l \<and> tree_at h pr = Some r"
  by (subst (asm) tree_at.simps) (auto split: option.splits obj.splits if_splits)

lemma tree_at_append: "tree_at h p = Some t \<Longrightarrow> tree_at (h @ ext) p = Some t"
proof (induction t arbitrary: p)
  case (TreeLeaf v)
  from deref_append [OF tree_at_leaf [OF this], of ext] show ?case
    by (subst tree_at.simps) simp
next
  case (TreeBranch l r)
  from tree_at_branch [OF TreeBranch.prems] obtain pl pr where
    d: "deref h p = Some (BranchObj pl pr)" and o: "pl < p" "pr < p"
    and l: "tree_at h pl = Some l" and r: "tree_at h pr = Some r"
    by blast
  from deref_append [OF d, of ext] o TreeBranch.IH(1) [OF l] TreeBranch.IH(2) [OF r]
  show ?case
    by (subst tree_at.simps) simp
qed

lemma alloc_correct:
  "alloc t h = (p, h') \<Longrightarrow>
   tree_at h' p = Some t \<and> p < length h' \<and> (\<exists>ext. h' = h @ ext)"
proof (induction t arbitrary: h p h')
  case (TreeLeaf v)
  then show ?case
    by (subst tree_at.simps) auto
next
  case (TreeBranch l r)
  obtain pl h1 where a1: "alloc l h = (pl, h1)" by (cases "alloc l h")
  obtain pr h2 where a2: "alloc r h1 = (pr, h2)" by (cases "alloc r h1")
  from TreeBranch.IH(1) [OF a1] obtain e1 where
    l: "tree_at h1 pl = Some l" "pl < length h1" "h1 = h @ e1" by blast
  from TreeBranch.IH(2) [OF a2] obtain e2 where
    r: "tree_at h2 pr = Some r" "pr < length h2" "h2 = h1 @ e2" by blast
  from TreeBranch.prems a1 a2 have p: "p = length h2" and h': "h' = h2 @ [BranchObj pl pr]"
    by simp_all
  have "tree_at h2 pl = Some l"
    using tree_at_append [OF l(1), of e2] r(3) by simp
  then have "tree_at h' pl = Some l" "tree_at h' pr = Some r"
    using tree_at_append [of h2 _ _ "[BranchObj pl pr]"] r(1) h' by simp_all
  moreover have "pl < p" "pr < p"
    using l(2) r(2) r(3) p by simp_all
  ultimately have "tree_at h' p = Some (TreeBranch l r)"
    using p h' by (subst tree_at.simps) simp
  moreover have "h' = h @ (e1 @ e2 @ [BranchObj pl pr])"
    using h' l(3) r(3) by simp
  ultimately show ?case using p h' by auto
qed

lemma h_decode_loop_refines:
  "tree_at h p = Some t \<Longrightarrow> h_decode_loop p reader h = (decode_loop t reader, h)"
proof (induction reader arbitrary: p t)
  case Nil
  then show ?case by (simp add: h_decode_loop.simps)
next
  case (Cons b bs)
  show ?case
  proof (cases t)
    case (TreeLeaf v)
    with Cons.prems have "deref h p = Some (LeafObj v)" by (simp add: tree_at_leaf)
    with TreeLeaf show ?thesis
      by (subst h_decode_loop.simps) (simp add: h_getLeft_def h_getRight_def)
  next
    case (TreeBranch l r)
    with Cons.prems tree_at_branch [of h p l r] obtain pl pr where
      d: "deref h p = Some (BranchObj pl pr)"
      and l: "tree_at h pl = Some l" and r: "tree_at h pr = Some r"
      by blast
    define c where "c = (if b then r else l)"
    define pc where "pc = (if b then pr else pl)"
    have c: "tree_at h pc = Some c"
      using l r by (simp add: c_def pc_def)
    have step: "(if \<not> b then h_getLeft p h else h_getRight p h) = (Inr pc, h)"
      using d by (simp add: h_getLeft_def h_getRight_def pc_def)
    show ?thesis
    proof (cases c)
      case (TreeLeaf u)
      with c have "deref h pc = Some (LeafObj u)" by (simp add: tree_at_leaf)
      then have "h_decode_loop p (b # bs) h = ((Inr u, bs), h)"
        using step by (subst h_decode_loop.simps) (simp add: h_isTreeLeaf_def h_getValue_def)
      moreover have "decode_loop t (b # bs) = (Inr u, bs)"
        using TreeLeaf \<open>t = TreeBranch l r\<close> by (simp add: decode_loop_branch c_def)
      ultimately show ?thesis by simp
    next
      case (TreeBranch l' r')
      with c tree_at_branch [of h pc l' r'] obtain x y where
        "deref h pc = Some (BranchObj x y)" by blast
      then have "h_decode_loop p (b # bs) h = h_decode_loop pc bs h"
        using step by (subst h_decode_loop.simps) (simp add: h_isTreeLeaf_def)
      moreover have "decode_loop t (b # bs) = decode_loop c bs"
        using TreeBranch \<open>t = TreeBranch l r\<close> by (simp add: decode_loop_branch c_def)
      ultimately show ?thesis using Cons.IH [OF c] by simp
    qed
  qed
qed

lemma h_decompress_loop_refines:
  "tree_at h p = Some t \<Longrightarrow> h_decompress_loop p r w h = (decompress_loop t r w, h)"
proof (induction t r w rule: decompress_loop.induct)
  case (1 t r w)
  have d: "h_decode_byte p r h = (decode_byte t r, h)"
    using "1.prems" by (simp add: h_decode_byte_def decode_byte_def h_decode_loop_refines)
  obtain res r1 where e: "decode_byte t r = (res, r1)" by (cases "decode_byte t r")
  show ?case
  proof (cases res)
    case (Inl x)
    with d e show ?thesis
      by (subst h_decompress_loop.simps) (simp add: decompress_loop_error)
  next
    case (Inr y)
    show ?thesis
    proof (cases y)
      case None
      with d e Inr show ?thesis
        by (subst h_decompress_loop.simps) (simp add: decompress_loop_stop)
    next
      case (Some b)
      from "1.IH" [OF e [symmetric] Inr Some "1.prems"] d e Inr Some show ?thesis
        by (subst h_decompress_loop.simps) (simp add: decompress_loop_step)
    qed
  qed
qed

lemma h_compress_loop_refines:
  "deref h tbl = Some (DictObj d) \<Longrightarrow>
   h_compress_loop tbl r w h = (compress_loop d r w, h)"
proof (induction d r w rule: compress_loop.induct)
  case (1 d r w)
  show ?case
  proof (cases "readbits 8 r")
    case (Inl e)
    with "1.prems" show ?thesis
      by (subst h_compress_loop.simps, subst compress_loop.simps)
         (simp add: h_getitem_def split: option.splits)
  next
    case (Inr x)
    obtain v r1 where x: "x = (v, r1)" by (cases x)
    show ?thesis
    proof (cases "d (Some (of_nat v))")
      case None
      with "1.prems" Inr x show ?thesis
        by (subst h_compress_loop.simps, subst compress_loop.simps)
           (simp add: h_getitem_def)
    next
      case (Some path)
      from "1.IH" [OF Inr x [symmetric] Some "1.prems"] "1.prems" Inr x Some show ?thesis
        by (subst h_compress_loop.simps, subst compress_loop.simps)
           (simp add: h_getitem_def)
    qed
  qed
qed

section \<open>Properties of the codec\<close>

subsection \<open>Round trip\<close>

text \<open>
  Claim C1. For every byte sequence \<open>S\<close>, the empty one included, and every tree \<open>T\<close>
  whose leaves cover the end-of-stream marker and every byte of \<open>S\<close>: \<open>compress\<close> into an
  empty stream returns normally with the pickled tree followed by a payload, and
  \<open>decompress\<close> of that stream appends exactly \<open>S\<close> to its output. Decoding the payload
  yields the \<open>length S\<close> bytes of \<open>S\<close> by successive calls of \<open>decode_byte\<close>, the next
  call returns \<open>None\<close>, and what the reader has not consumed then is the padding: fewer
  than 8 bits, all zero.
\<close>

theorem compress_decompress_roundtrip:
  assumes "None \<in> leaves T" and "\<forall>b\<in>set S. Some b \<in> leaves T"
  shows "\<exists>payload rm pad.
    compress T S [] = Inr (pickle_dumps T @ payload)
    \<and> decompress (pickle_dumps T @ payload) u = Inr (u @ S)
    \<and> decodes T (BitReader payload) S = Some rm
    \<and> decode_byte T rm = (Inr None, pad)
    \<and> length pad < 8 \<and> set pad \<subseteq> {False}"
proof -
  from paths_exist [OF assms(2)] obtain ps where
    ps: "list_all2 (\<lambda>p b. make_encoding_table T (Some b) = Some p \<and> leads_to T p (Some b)) ps S"
    by blast
  from table_entry [OF assms(1)] obtain pe where
    pe: "make_encoding_table T None = Some pe" "leads_to T pe None"
    by blast
  define bits where "bits = concat ps @ pe"
  define pad where "pad = replicate ((8 - length bits mod 8) mod 8) False"
  define payload where "payload = pack bits"
  have c: "compress T S [] = Inr (pickle_dumps T @ payload)"
    using compress_result [OF ps pe(1), of "[]"] by (simp add: payload_def bits_def)
  have rd: "BitReader payload = concat ps @ pe @ pad"
    by (simp add: payload_def pad_def BitReader_pack bits_def)
  have pad: "length pad < 8" "set pad \<subseteq> {False}"
    by (auto simp: pad_def)
  have "decodes T (BitReader payload) S = Some (pe @ pad)
      \<and> decode_byte T (pe @ pad) = (Inr None, pad)"
  proof (cases T)
    case (TreeLeaf v)
    with assms have "S = []" by (cases S) auto
    moreover from pe(2) TreeLeaf have "pe = []" by simp
    moreover from ps \<open>S = []\<close> have "ps = []" by simp
    ultimately have "bits = []" by (simp add: bits_def)
    then have "pad = []" by (simp add: pad_def)
    with \<open>S = []\<close> \<open>pe = []\<close> \<open>ps = []\<close> rd show ?thesis
      by (simp add: decode_byte_def)
  next
    case (TreeBranch l r)
    from ps have "list_all2 (\<lambda>p b. leads_to T p (Some b) \<and> p \<noteq> []) ps S"
      by (rule list_all2_mono) (auto simp: TreeBranch)
    from decodes_paths [OF this, of "pe @ pad"] rd
    have "decodes T (BitReader payload) S = Some (pe @ pad)" by simp
    moreover from pe(2) TreeBranch have "pe \<noteq> []" by auto
    with pe(2) have "decode_byte T (pe @ pad) = (Inr None, pad)"
      by (simp add: decode_byte_def decode_loop_leads)
    ultimately show ?thesis by simp
  qed
  then have d: "decodes T (BitReader payload) S = Some (pe @ pad)"
    and s: "decode_byte T (pe @ pad) = (Inr None, pad)"
    by simp_all
  from decompress_result [OF d s] c d s pad show ?thesis
    by blast
qed

text \<open>The round trip at the scenario of section 8: the input is the two bytes 97, 98.\<close>

theorem compress_decompress_roundtrip_witness:
  "None \<in> leaves scenario_tree \<and> Some 97 \<in> leaves scenario_tree \<and> Some 98 \<in> leaves scenario_tree
   \<and> (\<exists>payload rm pad.
        compress scenario_tree [97, 98] [] = Inr (pickle_dumps scenario_tree @ payload)
        \<and> decompress (pickle_dumps scenario_tree @ payload) [] = Inr ([] @ [97, 98])
        \<and> decodes scenario_tree (BitReader payload) [97, 98] = Some rm
        \<and> decode_byte scenario_tree rm = (Inr None, pad)
        \<and> length pad < 8 \<and> set pad \<subseteq> {False})"
  using compress_decompress_roundtrip [of scenario_tree "[97, 98]" "[]"] by (simp add: scenario_tree_def)

subsection \<open>Exhaustion of the compressed stream\<close>

text \<open>
  Claim C2, as the code behaves. When the tree has an internal node as its root and the bits
  after the pickled tree are the paths of the bytes \<open>bs\<close> followed by a tail that ends
  before any leaf is reached, so that the stream is exhausted before the sentinel leaf is
  decoded, \<open>decompress\<close> raises nothing: it returns normally, and its output is extended
  by exactly the bytes \<open>bs\<close> decoded before the exhaustion.
\<close>

theorem decompress_exhausted_returns:
  assumes "list_all2 (\<lambda>p b. leads_to T p (Some b)) ps bs"
    and "dangling T tail"
    and "BitReader payload = concat ps @ tail"
  shows "decompress (pickle_dumps T @ payload) u = Inr (u @ bs)"
proof -
  from assms(2) have nl: "\<not> isTreeLeaf T" by (rule dangling_branch)
  from assms(1) have "list_all2 (\<lambda>p b. leads_to T p (Some b) \<and> p \<noteq> []) ps bs"
    by (rule list_all2_mono) (auto dest: leads_to_nonempty [OF _ nl])
  from decodes_paths [OF this, of tail] assms(3)
  have d: "decodes T (BitReader payload) bs = Some tail" by simp
  from assms(2) have s: "decode_byte T tail = (Inr None, [])"
    by (simp add: decode_byte_def decode_loop_dangling)
  from decompress_result [OF d s] show ?thesis .
qed

text \<open>
  An instance: one payload byte 0 under \<open>unary_tree\<close> is eight times the path of byte 97,
  with nothing after it.
\<close>

theorem decompress_exhausted_returns_witness:
  "list_all2 (\<lambda>p b. leads_to unary_tree p (Some b))
     [[False], [False], [False], [False], [False], [False], [False], [False]]
     [97, 97, 97, 97, 97, 97, 97, 97]
   \<and> dangling unary_tree []
   \<and> BitReader [0] = concat [[False], [False], [False], [False], [False], [False], [False], [False]] @ []
   \<and> decompress (pickle_dumps unary_tree @ [0]) [] = Inr ([] @ [97, 97, 97, 97, 97, 97, 97, 97])"
proof -
  have h1: "list_all2 (\<lambda>p b. leads_to unary_tree p (Some b))
     [[False], [False], [False], [False], [False], [False], [False], [False]]
     [97, 97, 97, 97, 97, 97, 97, 97]"
    by (simp add: unary_tree_def)
  have h2: "dangling unary_tree []" by (simp add: unary_tree_def)
  have h3: "BitReader [0] =
      concat [[False], [False], [False], [False], [False], [False], [False], [False]] @ []"
    by code_simp
  from decompress_exhausted_returns [OF h1 h2 h3, of "[]"] h1 h2 h3 show ?thesis by blast
qed

text \<open>
  Claim C2 as stated fails. Sixteen bytes 97 compress under \<open>unary_tree\<close> to the pickled
  tree followed by the payload bytes 0, 0, 128, where the sentinel path is the first bit of
  the last byte. Cut immediately before the sentinel path, the stream decompresses to a
  normal return; cut one byte earlier, it decompresses to a normal return with only eight
  bytes. No error is surfaced in either case.
\<close>

theorem decompress_truncated_counterexample:
  "compress unary_tree [97, 97, 97, 97, 97, 97, 97, 97, 97, 97, 97, 97, 97, 97, 97, 97] []
     = Inr [2, 1, 97, 0, 0, 0, 128]
   \<and> decompress [2, 1, 97, 0, 0, 0] []
     = Inr [97, 97, 97, 97, 97, 97, 97, 97, 97, 97, 97, 97, 97, 97, 97, 97]
   \<and> decompress [2, 1, 97, 0, 0] [] = Inr [97, 97, 97, 97, 97, 97, 97, 97]"
  by code_simp

subsection \<open>Layout of the compressed artifact\<close>

text \<open>
  Claim C3. For every tree \<open>T\<close> whose leaves cover the end-of-stream marker and every byte
  of the input \<open>S\<close>, and every prior contents \<open>sink\<close> of the output: \<open>compress\<close> appends
  the serialisation of \<open>T\<close> followed by the packed bits of the paths \<open>ps\<close> of the bytes of
  \<open>S\<close> in input order followed by the path \<open>pe\<close> of the end-of-stream marker, written
  once. Each of these paths is the entry of the encoding table for its symbol and leads to a
  leaf storing that symbol. Read back as bits, the payload is these bits followed by \<open>k\<close>
  zero bits with \<open>k < 8\<close>, and its length in bits is the sum of the lengths of the emitted
  paths rounded up to a multiple of 8.
\<close>

theorem compress_artifact_layout:
  assumes "None \<in> leaves T" and "\<forall>b\<in>set S. Some b \<in> leaves T"
  shows "\<exists>ps pe k.
    list_all2 (\<lambda>p b. make_encoding_table T (Some b) = Some p \<and> leads_to T p (Some b)) ps S
    \<and> make_encoding_table T None = Some pe \<and> leads_to T pe None
    \<and> compress T S sink = Inr (sink @ pickle_dumps T @ pack (concat ps @ pe))
    \<and> BitReader (pack (concat ps @ pe)) = concat ps @ pe @ replicate k False
    \<and> k < 8
    \<and> 8 * length (pack (concat ps @ pe)) = 8 * ((sum_list (map length ps) + length pe + 7) div 8)"
proof -
  from paths_exist [OF assms(2)] obtain ps where
    ps: "list_all2 (\<lambda>p b. make_encoding_table T (Some b) = Some p \<and> leads_to T p (Some b)) ps S"
    by blast
  from table_entry [OF assms(1)] obtain pe where
    pe: "make_encoding_table T None = Some pe" "leads_to T pe None"
    by blast
  define k where "k = (8 - length (concat ps @ pe) mod 8) mod 8"
  have "BitReader (pack (concat ps @ pe)) = concat ps @ pe @ replicate k False"
    by (simp add: BitReader_pack k_def)
  moreover have "k < 8" by (simp add: k_def)
  moreover have "8 * length (pack (concat ps @ pe))
      = 8 * ((sum_list (map length ps) + length pe + 7) div 8)"
    by (simp add: length_pack length_concat)
  ultimately show ?thesis
    using ps pe compress_result [OF ps pe(1), of sink] by blast
qed

text \<open>The layout at the scenario of section 8, appended to an output that holds one byte.\<close>

theorem compress_artifact_layout_witness:
  "None \<in> leaves scenario_tree \<and> Some 97 \<in> leaves scenario_tree \<and> Some 98 \<in> leaves scenario_tree
   \<and> (\<exists>ps pe k.
    list_all2 (\<lambda>p b. make_encoding_table scenario_tree (Some b) = Some p
        \<and> leads_to scenario_tree p (Some b)) ps [97, 98]
    \<and> make_encoding_table scenario_tree None = Some pe \<and> leads_to scenario_tree pe None
    \<and> compress scenario_tree [97, 98] [5] = Inr ([5] @ pickle_dumps scenario_tree @ pack (concat ps @ pe))
    \<and> BitReader (pack (concat ps @ pe)) = concat ps @ pe @ replicate k False
    \<and> k < 8
    \<and> 8 * length (pack (concat ps @ pe)) = 8 * ((sum_list (map length ps) + length pe + 7) div 8))"
  using compress_artifact_layout [of scenario_tree "[97, 98]" "[5]"] by (simp add: scenario_tree_def)

subsection \<open>The tree walk of \<open>decode_byte\<close>\<close>

text \<open>
  On every tree whose root is an internal node, and for every bit source, \<open>decode_byte\<close>
  computes what the traversal of the specification computes: it starts at the root, reads
  one bit per step, moves left on \<open>False\<close> and right on \<open>True\<close>, returns the value of
  the first leaf it moves to and leaves the bits after it unread, and returns \<open>None\<close>
  with the source used up when the source is exhausted before a leaf is reached.
\<close>

lemma decode_byte_refines_spec:
  "decode_byte (TreeBranch l r) bits =
     (Inr (signal (fst (spec_decodeByte (TreeBranch l r) bits))),
      snd (spec_decodeByte (TreeBranch l r) bits))"
proof (induction bits arbitrary: l r)
  case Nil
  then show ?case by (simp add: decode_byte_def)
next
  case (Cons b bits)
  show ?case
  proof (cases "if b then r else l")
    case (TreeLeaf v)
    then show ?thesis by (simp add: decode_byte_def decode_loop_branch)
  next
    case (TreeBranch l' r')
    with Cons [of l' r'] show ?thesis by (simp add: decode_byte_def decode_loop_branch)
  qed
qed

text \<open>
  Claim C4 says that for every well-formed tree and bit source each call of
  \<open>decode_byte\<close> starts at the root, reads one bit per step, moves left on 0 and right
  on 1, returns the value of the first leaf it lands on without reading further, and returns
  "no value" when the source is exhausted before a leaf is reached. The code breaks this on
  the well-formed tree that is the single leaf of the end-of-stream marker: the walk of the
  claim is on a leaf from the start and returns its value with the bit unread, but the code
  reads the bit first, asks the leaf for its right child, and \<open>AttributeError\<close> leaves
  the function.
\<close>

theorem decode_byte_leaf_root_raises:
  "decode_byte (TreeLeaf None) [True] = (Inl AttributeError, [])
   \<and> spec_decodeByte (TreeLeaf None) [True] = (Value None, [True])"
  by (simp add: decode_byte_def)

subsection \<open>A tree that is a single leaf\<close>

text \<open>
  Claim C5 says that for a tree whose root is a leaf \<open>decode_byte\<close> reads zero bits and
  returns the value of the leaf. The code reads a bit before it looks at the node: on the
  leaf storing byte 65 and the bits of one byte 0 it consumes one bit and raises
  \<open>AttributeError\<close>; on an exhausted source it returns \<open>None\<close>, not 65.
\<close>

theorem decode_byte_single_leaf_raises:
  "decode_byte (TreeLeaf (Some 65)) (BitReader [0])
     = (Inl AttributeError, [False, False, False, False, False, False, False])
   \<and> decode_byte (TreeLeaf (Some 65)) [] = (Inr None, [])"
  by code_simp

subsection \<open>A byte without a table entry\<close>

text \<open>
  Claim C6. When the input contains a byte that has no entry in the encoding table built
  from the supplied tree, \<open>compress\<close> does not return normally: \<open>KeyError\<close> leaves the
  function, since the only handler in \<open>compress\<close> catches \<open>EOFError\<close>.
\<close>

theorem compress_unknown_symbol_raises:
  assumes "b \<in> set S" and "make_encoding_table T (Some b) = None"
  shows "compress T S sink = Inl KeyError"
  using assms
    compress_loop_KeyError [of b S "make_encoding_table T" "BitWriter (write_tree T sink)"]
  by (simp add: compress_def)

text \<open>An instance: byte 99 is not in \<open>scenario_tree\<close>.\<close>

theorem compress_unknown_symbol_raises_witness:
  "99 \<in> set [97, 99 :: byte] \<and> make_encoding_table scenario_tree (Some 99) = None
   \<and> compress scenario_tree [97, 99] [] = Inl KeyError"
proof -
  have h1: "99 \<in> set [97, 99 :: byte]" by simp
  have h2: "make_encoding_table scenario_tree (Some 99) = None"
    by (simp add: make_encoding_table_def scenario_tree_def)
  from compress_unknown_symbol_raises [OF h1 h2] h1 h2 show ?thesis by simp
qed

subsection \<open>Termination of \<open>decode_byte\<close>\<close>

text \<open>
  What the loop of \<open>decode_byte\<close> does on any tree and any bit source: it consumes a
  prefix \<open>p\<close> of the source, one bit per iteration, and stops. When the root is an
  internal node, either \<open>p\<close> is a path from the root down to a leaf, whose value is
  returned, or the source was used up inside the tree and \<open>None\<close> is returned.
\<close>

lemma decode_byte_terminates_bounded:
  "\<exists>res p rest. decode_byte t reader = (res, rest) \<and> reader = p @ rest
     \<and> length p \<le> max 1 (height t)
     \<and> (\<not> isTreeLeaf t \<longrightarrow>
          (\<exists>v. res = Inr v \<and> (leads_to t p v \<or> (v = None \<and> rest = [] \<and> dangling t p))))"
proof -
  consider (leaf) "isTreeLeaf t"
    | (leads) p rest v where "reader = p @ rest" "leads_to t p v" "\<not> isTreeLeaf t"
    | (dang) "dangling t reader"
    using walk_cases [of t reader] by blast
  then show ?thesis
  proof cases
    case leaf
    then obtain u where t: "t = TreeLeaf u" by (cases t) auto
    show ?thesis
    proof (cases reader)
      case Nil
      with t show ?thesis by (simp add: decode_byte_def)
    next
      case (Cons b bs)
      with t have "decode_byte t reader = (Inl AttributeError, bs) \<and> reader = [b] @ bs
          \<and> length [b] \<le> max 1 (height t)"
        by (simp add: decode_byte_def)
      with leaf show ?thesis by blast
    qed
  next
    case leads
    then have "decode_byte t reader = (Inr v, rest)"
      using leads_to_nonempty [of t p v] by (simp add: decode_byte_def decode_loop_leads)
    moreover have "length p \<le> max 1 (height t)"
      using leads_to_height [OF leads(2)] by simp
    ultimately show ?thesis using leads by blast
  next
    case dang
    then have "decode_byte t reader = (Inr None, []) \<and> reader = reader @ []
        \<and> length reader \<le> max 1 (height t)"
      using dangling_height [OF dang] by (simp add: decode_byte_def decode_loop_dangling)
    with dang show ?thesis by blast
  qed
qed

text \<open>
  Claim C7 says that for every well-formed tree (finite, every internal node with two
  children) and every bit source \<open>decode_byte\<close> terminates, each call either returning
  a leaf value or signalling exhaustion, without revisiting the root and without looping
  for ever. The code breaks this on a tree that is a single leaf, which is finite and has no
  internal node at all: with bits available the call stops, but it neither returns the value
  of the leaf nor signals exhaustion; it consumes a bit and \<open>AttributeError\<close> leaves the
  function.
\<close>

theorem decode_byte_leaf_root_neither:
  "decode_byte (TreeLeaf (Some 0)) [False, True] = (Inl AttributeError, [True])"
  by (simp add: decode_byte_def)

subsection \<open>Physical and logical end of stream\<close>

text \<open>
  Claim C8. \<open>decode_byte\<close> returns the same value \<open>None\<close> when the bit source is
  exhausted in the middle of the traversal and when the traversal reaches the leaf that holds
  the end-of-stream marker; the returned value does not tell the two apart.
\<close>

theorem decode_byte_collapses_signals:
  assumes "dangling t bits" and "leads_to t p None"
  shows "decode_byte t bits = (Inr None, []) \<and> decode_byte t (p @ rest) = (Inr None, rest)"
  using assms leads_to_nonempty [OF assms(2) dangling_branch [OF assms(1)]]
  by (simp add: decode_byte_def decode_loop_dangling decode_loop_leads)

text \<open>
  An instance on \<open>scenario_tree\<close>: the single bit 1 ends inside the tree, the bits 1, 1
  reach the sentinel leaf.
\<close>

theorem decode_byte_collapses_signals_witness:
  "dangling scenario_tree [True] \<and> leads_to scenario_tree [True, True] None
   \<and> decode_byte scenario_tree [True] = (Inr None, [])
   \<and> decode_byte scenario_tree ([True, True] @ [False]) = (Inr None, [False])"
proof -
  have h1: "dangling scenario_tree [True]" by (simp add: scenario_tree_def)
  have h2: "leads_to scenario_tree [True, True] None" by (simp add: scenario_tree_def)
  from decode_byte_collapses_signals [OF h1 h2, of "[False]"] h1 h2 show ?thesis by blast
qed

subsection \<open>The tree and the table are only read\<close>

text \<open>
  Claim C9. When the heap holds the tree \<open>T\<close> at the reference passed as the tree
  argument: \<open>decode_byte\<close> leaves the heap as it found it; \<open>compress\<close> returns what it
  returns on \<open>T\<close> and leaves the heap extended by exactly one object, the dictionary as
  \<open>make_encoding_table\<close> built it, so that no node of the tree has changed, the tree
  argument still denotes \<open>T\<close>, and the table was not changed after it was built;
  \<open>decompress\<close> leaves the heap exactly as \<open>read_tree\<close> left it after unpickling the
  tree, every earlier object included.
\<close>

theorem codec_leaves_store_unchanged:
  assumes "tree_at h tree = Some T"
  shows "h_decode_byte tree reader h = (decode_byte T reader, h)
    \<and> h_compress tree uncompressed compressed h =
        (compress T uncompressed compressed, h @ [DictObj (make_encoding_table T)])
    \<and> (\<exists>ext. h_decompress compressed' uncompressed' h =
          (decompress compressed' uncompressed', h @ ext)
        \<and> snd (h_read_tree compressed' h) = h @ ext)
    \<and> tree_at (snd (h_compress tree uncompressed compressed h)) tree = Some T"
proof -
  have 1: "h_decode_byte tree reader h = (decode_byte T reader, h)"
    using assms by (simp add: h_decode_byte_def decode_byte_def h_decode_loop_refines)
  have "h_compress_loop (length h) (BitReader uncompressed)
      (BitWriter (write_tree T compressed)) (h @ [DictObj (make_encoding_table T)])
    = (compress_loop (make_encoding_table T) (BitReader uncompressed)
        (BitWriter (write_tree T compressed)), h @ [DictObj (make_encoding_table T)])"
    by (rule h_compress_loop_refines) simp
  then have 2: "h_compress tree uncompressed compressed h =
      (compress T uncompressed compressed, h @ [DictObj (make_encoding_table T)])"
    using assms
    by (simp add: h_compress_def compress_def h_write_tree_def h_make_encoding_table_def
        write_tree_def split: sum.splits)
  have 3: "\<exists>ext. h_decompress compressed' uncompressed' h =
        (decompress compressed' uncompressed', h @ ext)
      \<and> snd (h_read_tree compressed' h) = h @ ext"
  proof (cases "pickle_load compressed'")
    case (Inl e)
    then have "h_decompress compressed' uncompressed' h =
        (decompress compressed' uncompressed', h @ [])
      \<and> snd (h_read_tree compressed' h) = h @ []"
      by (simp add: h_decompress_def decompress_def h_read_tree_def read_tree_def)
    then show ?thesis by blast
  next
    case (Inr x)
    obtain t rest where x: "x = (t, rest)" by (cases x)
    obtain p h1 where a: "alloc t h = (p, h1)" by (cases "alloc t h")
    from alloc_correct [OF a] obtain ext where
      t: "tree_at h1 p = Some t" and e: "h1 = h @ ext" by blast
    from h_decompress_loop_refines [OF t, of "BitReader rest" "BitWriter uncompressed'"]
    have "h_decompress compressed' uncompressed' h =
        (decompress compressed' uncompressed', h @ ext)
      \<and> snd (h_read_tree compressed' h) = h @ ext"
      using Inr x a e
      by (simp add: h_decompress_def decompress_def h_read_tree_def read_tree_def
          split: sum.splits prod.splits)
    then show ?thesis by blast
  qed
  have 4: "tree_at (snd (h_compress tree uncompressed compressed h)) tree = Some T"
    using 2 tree_at_append [OF assms] by simp
  from 1 2 3 4 show ?thesis by blast
qed

text \<open>
  An instance: a heap of three objects that holds \<open>unary_tree\<close> at reference 2.
\<close>

theorem codec_leaves_store_unchanged_witness:
  "tree_at [LeafObj (Some 97), LeafObj None, BranchObj 0 1] 2 = Some unary_tree
   \<and> h_decode_byte 2 [True] [LeafObj (Some 97), LeafObj None, BranchObj 0 1]
       = (decode_byte unary_tree [True], [LeafObj (Some 97), LeafObj None, BranchObj 0 1])
   \<and> h_compress 2 [97] [] [LeafObj (Some 97), LeafObj None, BranchObj 0 1]
       = (compress unary_tree [97] [],
          [LeafObj (Some 97), LeafObj None, BranchObj 0 1]
            @ [DictObj (make_encoding_table unary_tree)])
   \<and> tree_at (snd (h_compress 2 [97] [] [LeafObj (Some 97), LeafObj None, BranchObj 0 1])) 2
       = Some unary_tree"
proof -
  have h: "tree_at [LeafObj (Some 97), LeafObj None, BranchObj 0 1] 2 = Some unary_tree"
    by code_simp
  from codec_leaves_store_unchanged [OF h, of "[True]" "[97]" "[]"] h show ?thesis
    by blast
qed

subsection \<open>The sentinel is \<open>None\<close> at every layer\<close>

text \<open>
  Claim C10. The end-of-stream sentinel is \<open>None\<close> at every layer of the codec.
  In the tree and the table: the entry the encoding table keeps under a symbol \<open>v\<close> is a
  path to a leaf that stores \<open>v\<close>, so the path \<open>pe\<close> kept under \<open>None\<close> leads to a
  leaf that stores \<open>None\<close>. In \<open>compress\<close>: when the input is exhausted the loop looks
  up the key \<open>None\<close> and writes exactly the path found there (and raises \<open>KeyError\<close>
  when there is none), so the payload of \<open>compress\<close> is the paths of the input bytes
  followed by \<open>pe\<close>, packed. In \<open>decode_byte\<close> and \<open>decompress\<close>: decoding a non-empty
  table path returns its symbol \<open>v\<close>, and the loop of \<open>decompress\<close> then ends when \<open>v\<close>
  is \<open>None\<close> and writes the byte and goes on when \<open>v\<close> is a real byte; in general the
  loop returns normally exactly when some number of calls of \<open>decode_byte\<close> returned real
  bytes, which are what it wrote, and the next call returned \<open>None\<close>. A real symbol
  stored as \<open>None\<close> would therefore end decompression early.
\<close>

theorem sentinel_is_None_everywhere:
  assumes "make_encoding_table t v = Some p"
    and "make_encoding_table t None = Some pe"
    and "list_all2 (\<lambda>q b. make_encoding_table t (Some b) = Some q) ps S"
  shows "leads_to t p v \<and> leads_to t pe None
    \<and> compress_loop tbl [] writer =
          (case tbl None of None \<Rightarrow> Inl KeyError | Some path \<Rightarrow> Inr (write_path path writer))
    \<and> compress_loop (make_encoding_table t) (BitReader S) writer =
          Inr (write_path pe (write_path (concat ps) writer))
    \<and> compress t S sink = Inr (sink @ pickle_dumps t @ pack (concat ps @ pe))
    \<and> (p \<noteq> [] \<longrightarrow> decode_byte t (p @ rest) = (Inr v, rest))
    \<and> (p \<noteq> [] \<longrightarrow> decompress_loop t (p @ rest) w =
          (case v of None \<Rightarrow> Inr (w, rest)
           | Some b \<Rightarrow> decompress_loop t rest (writebits (unat b) 8 w)))
    \<and> (decompress_loop t r w = Inr (w', r') \<longleftrightarrow>
          (\<exists>bs rm. decodes t r bs = Some rm \<and> decode_byte t rm = (Inr None, r')
             \<and> w' = w\<lparr>pending := pending w @ BitReader bs\<rparr>))"
proof -
  from assms(1) have l: "leads_to t p v" by (rule table_sound)
  from assms(2) have le: "leads_to t pe None" by (rule table_sound)
  have c0: "compress_loop tbl [] writer =
      (case tbl None of None \<Rightarrow> Inl KeyError | Some path \<Rightarrow> Inr (write_path path writer))"
    by (subst compress_loop.simps) simp
  have c1: "compress_loop (make_encoding_table t) (BitReader S) writer =
      Inr (write_path pe (write_path (concat ps) writer))"
    using compress_loop_ok [OF assms(3) assms(2), of writer] by (simp add: write_path_eq)
  from assms(3) have
    "list_all2 (\<lambda>q b. make_encoding_table t (Some b) = Some q \<and> leads_to t q (Some b)) ps S"
    by (rule list_all2_mono) (simp add: table_sound)
  from compress_result [OF this assms(2), of sink]
  have c2: "compress t S sink = Inr (sink @ pickle_dumps t @ pack (concat ps @ pe))" .
  from l have d: "p \<noteq> [] \<longrightarrow> decode_byte t (p @ rest) = (Inr v, rest)"
    by (simp add: decode_byte_def decode_loop_leads)
  then have s: "p \<noteq> [] \<longrightarrow> decompress_loop t (p @ rest) w =
      (case v of None \<Rightarrow> Inr (w, rest)
       | Some b \<Rightarrow> decompress_loop t rest (writebits (unat b) 8 w))"
    by (cases v) (auto simp: decompress_loop_stop decompress_loop_step)
  have e: "decompress_loop t r w = Inr (w', r') \<longleftrightarrow>
      (\<exists>bs rm. decodes t r bs = Some rm \<and> decode_byte t rm = (Inr None, r')
         \<and> w' = w\<lparr>pending := pending w @ BitReader bs\<rparr>)"
    using decompress_loop_Inr [of t r w w' r']
    by (auto simp: decompress_loop_decodes decompress_loop_stop)
  from l le c0 c1 c2 d s e show ?thesis by blast
qed

text \<open>
  An instance on \<open>scenario_tree\<close> with the one input byte 97: the sentinel path is 1, 1,
  the path of byte 98 is 1, 0.
\<close>

theorem sentinel_is_None_everywhere_witness:
  "make_encoding_table scenario_tree (Some 98) = Some [True, False]
   \<and> make_encoding_table scenario_tree None = Some [True, True]
   \<and> list_all2 (\<lambda>q b. make_encoding_table scenario_tree (Some b) = Some q) [[False]] [97]
   \<and> leads_to scenario_tree [True, False] (Some 98)
   \<and> leads_to scenario_tree [True, True] None
   \<and> compress_loop (make_encoding_table scenario_tree) [] (BitWriter [])
       = Inr (write_path [True, True] (BitWriter []))
   \<and> compress_loop (make_encoding_table scenario_tree) (BitReader [97]) (BitWriter [])
       = Inr (write_path [True, True] (write_path (concat [[False]]) (BitWriter [])))
   \<and> compress scenario_tree [97] []
       = Inr ([] @ pickle_dumps scenario_tree @ pack (concat [[False]] @ [True, True]))
   \<and> decode_byte scenario_tree ([True, False] @ [True, True]) = (Inr (Some 98), [True, True])
   \<and> decompress_loop scenario_tree ([True, False] @ [True, True]) (BitWriter [])
       = decompress_loop scenario_tree [True, True] (writebits (unat (98 :: byte)) 8 (BitWriter []))"
proof -
  have h1: "make_encoding_table scenario_tree (Some 98) = Some [True, False]"
    by (simp add: make_encoding_table_def scenario_tree_def)
  have h2: "make_encoding_table scenario_tree None = Some [True, True]"
    by (simp add: make_encoding_table_def scenario_tree_def)
  have h3: "list_all2 (\<lambda>q b. make_encoding_table scenario_tree (Some b) = Some q) [[False]] [97]"
    by (simp add: make_encoding_table_def scenario_tree_def)
  from sentinel_is_None_everywhere
    [OF h1 h2 h3, of "make_encoding_table scenario_tree" "BitWriter []" "[]" "[True, True]"
      "BitWriter []"]
    h1 h2 h3
  show ?thesis by simp
qed

end
